theory Spec2Isabelle
  imports Main "HOL-Library.Sublist" "HOL-Library.Product_Lexorder" "HOL-Library.Multiset"
begin

section \<open>The Git Bash shell plugin (rezplugins/shell/gitbash.py)\<close>

text \<open>
  Python strings are modelled as \<^typ>\<open>string\<close>, the UTF-8 bytes of the text. The
  operations below only look for ASCII characters (letters, colon, backslash, slash);
  the bytes of a code point beyond ASCII are all above 127, so working on the bytes
  gives the encoding of what Python computes on the code points.
\<close>

subsection \<open>Characters and string helpers\<close>

definition backslash :: char where
  "backslash = CHR 0x5C"

definition fwdslash :: char where
  "fwdslash = CHR 0x2F"

definition colon :: char where
  "colon = CHR 0x3A"

definition quote :: char where
  "quote = CHR 0x27"

text \<open>The character class \<^verbatim>\<open>[A-Za-z]\<close> of \<^verbatim>\<open>_drive_regex\<close>.\<close>

definition is_upper :: "char \<Rightarrow> bool" where
  "is_upper c = (65 \<le> (of_char c :: nat) \<and> (of_char c :: nat) \<le> 90)"

definition is_lower :: "char \<Rightarrow> bool" where
  "is_lower c = (97 \<le> (of_char c :: nat) \<and> (of_char c :: nat) \<le> 122)"

definition is_letter :: "char \<Rightarrow> bool" where
  "is_letter c = (is_upper c \<or> is_lower c)"

text \<open>
  \<^verbatim>\<open>str.lower()\<close> on one character. Python also lowers letters beyond ASCII; none
  of them lowers to a character of \<^verbatim>\<open>system32\<close>, the only text a lowered string
  is searched for here, and the drive letter it is applied to is ASCII.
\<close>

definition lower_char :: "char \<Rightarrow> char" where
  "lower_char c = (if is_upper c then char_of ((of_char c :: nat) + 32) else c)"

definition lower :: "string \<Rightarrow> string" where
  "lower s = map lower_char s"

text \<open>\<^verbatim>\<open>needle in hay\<close> for strings: \<^verbatim>\<open>needle\<close> occurs as a contiguous substring.\<close>

fun str_in :: "string \<Rightarrow> string \<Rightarrow> bool" where
  "str_in needle [] = (needle = [])"
| "str_in needle (c # cs) = (prefix needle (c # cs) \<or> str_in needle cs)"

text \<open>\<^verbatim>\<open>s.replace(old, new)\<close> for a one-character \<^verbatim>\<open>old\<close>.\<close>

definition replace_char :: "char \<Rightarrow> string \<Rightarrow> string \<Rightarrow> string" where
  "replace_char old new s = concat (map (\<lambda>c. if c = old then new else [c]) s)"

subsection \<open>Configuration and errors\<close>

text \<open>\<^verbatim>\<open>config.plugins.shell.gitbash\<close>: the setting is \<^verbatim>\<open>None\<close> or a string.\<close>

record gitbash_settings =
  executable_fullpath :: "string option"

record config =
  disable_normalization :: bool
  plugins_shell_gitbash :: gitbash_settings

datatype py_error =
  RuntimeError string
  | ValueError string
  | AttributeError
  | OtherError string

text \<open>Python's truth value of a setting: \<^verbatim>\<open>None\<close> and the empty string are false.\<close>

fun truthy :: "string option \<Rightarrow> bool" where
  "truthy None = False"
| "truthy (Some s) = (s \<noteq> [])"

subsection \<open>\<^verbatim>\<open>GitBash.find_executable\<close>\<close>

text \<open>
  The file system (\<^verbatim>\<open>os.path.exists\<close>) is the parameter \<open>path_exists\<close>. The base
  class lookup \<^verbatim>\<open>Bash.find_executable\<close> is not part of this file; its outcome is the
  parameter \<open>bash_found\<close>: an exception it raised, or the value it returned (a path, or
  \<^verbatim>\<open>None\<close>). The warning printed before the \<^verbatim>\<open>ValueError\<close> is logging only.
\<close>

definition find_executable ::
  "config \<Rightarrow> (string \<Rightarrow> bool) \<Rightarrow> (py_error + string option) \<Rightarrow> py_error + string" where
  "find_executable cfg path_exists bash_found =
     (let settings = plugins_shell_gitbash cfg in
      if truthy (executable_fullpath settings) then
        (let p = the (executable_fullpath settings) in
         if \<not> path_exists p
         then Inl (RuntimeError (''Couldn'' @ [quote] @ ''t find executable '' @ [quote] @ p @ [quote] @ ''.''))
         else Inr p)
      else
        (case bash_found of
           Inl e \<Rightarrow> Inl e
         | Inr None \<Rightarrow> Inl AttributeError
         | Inr (Some exepath) \<Rightarrow>
             if exepath \<noteq> [] \<and> str_in ''system32'' (lower exepath)
             then Inl (ValueError (''Gitbash executable is not correct: '' @ exepath))
             else Inr (replace_char backslash [backslash, backslash] exepath)))"

subsection \<open>\<^verbatim>\<open>GitBash.as_path\<close>\<close>

definition as_path :: "config \<Rightarrow> string \<Rightarrow> string" where
  "as_path cfg path = (if disable_normalization cfg then path else path)"

subsection \<open>\<^verbatim>\<open>GitBash.normalize_paths\<close>\<close>

text \<open>
  \<^verbatim>\<open>_drive_regex.sub(lowrepl, path)\<close>: the scan goes left to right; at a position
  where letter, colon, backslash match, the three characters are replaced by
  slash, lowered letter, slash and the scan resumes after them; anywhere else one
  character is copied.
\<close>

fun drive_regex_sub :: "string \<Rightarrow> string" where
  "drive_regex_sub (a # b # c # rest) =
     (if is_letter a \<and> b = colon \<and> c = backslash
      then fwdslash # lower_char a # fwdslash # drive_regex_sub rest
      else a # drive_regex_sub (b # c # rest))"
| "drive_regex_sub s = s"

text \<open>
  The interpreter's script is a list of lines; \<^verbatim>\<open>self._addline\<close> appends one.
  \<^verbatim>\<open>repr\<close> (the \<^verbatim>\<open>{!r}\<close> of the format string) is a parameter.
\<close>

definition normalized_comment :: "(string \<Rightarrow> string) \<Rightarrow> string \<Rightarrow> string \<Rightarrow> string" where
  "normalized_comment py_repr path normalized_path =
     ''# path normalized: '' @ py_repr path @ '' -> '' @ normalized_path"

definition normalize_paths ::
  "config \<Rightarrow> (string \<Rightarrow> string) \<Rightarrow> string list \<Rightarrow> string \<Rightarrow> string \<times> string list" where
  "normalize_paths cfg py_repr script path =
     (if disable_normalization cfg then (path, script)
      else
        (let normalized_path = replace_char backslash [fwdslash] (drive_regex_sub path) in
         if path \<noteq> normalized_path
         then (normalized_path, script @ [normalized_comment py_repr path normalized_path])
         else (normalized_path, script)))"

text \<open>An occurrence of the drive prefix in a path, as a predicate that computes.\<close>

fun has_drive :: "string \<Rightarrow> bool" where
  "has_drive (a # b # c # rest) =
     ((is_letter a \<and> b = colon \<and> c = backslash) \<or> has_drive (b # c # rest))"
| "has_drive s = False"

section \<open>Version and range algebra\<close>

text \<open>
  The version algebra of the resolver (versions, their comparison, version ranges and
  the operations on them) is not among the source files at hand. Every definition of
  this section is modelled from the specification, section 3 (data model) and
  section 4.1 (version and range algebra).
\<close>

subsection \<open>Versions and their comparison\<close>

text \<open>
  Modelled from the spec: the result of \<^verbatim>\<open>compare(v1, v2) -> {less, equal, greater}\<close>
  of the missing version module.
\<close>

datatype comparison = Less | Equal | Greater

text \<open>
  Modelled from the spec: the inverted result (``consistent with
  \<^verbatim>\<open>compare(v2, v1)\<close> inverted'').
\<close>

fun invert :: "comparison \<Rightarrow> comparison" where
  "invert Less = Greater"
| "invert Equal = Equal"
| "invert Greater = Less"

text \<open>
  Modelled from the spec: ``numeric tokens compare numerically''; the comparison of
  two numbers of the missing version module.
\<close>

definition compare_nat :: "nat \<Rightarrow> nat \<Rightarrow> comparison" where
  "compare_nat m n = (if m < n then Less else if m = n then Equal else Greater)"

text \<open>
  Modelled from the spec: the comparison of two sequences, position by position, the
  first difference deciding and a proper prefix being less. The missing version module
  uses it for a version (an ``ordered sequence of tokens'') and for an alphabetic
  token (``alphabetic lexically'').
\<close>

fun compare_seq :: "('a \<Rightarrow> 'a \<Rightarrow> comparison) \<Rightarrow> 'a list \<Rightarrow> 'a list \<Rightarrow> comparison" where
  "compare_seq cmp [] [] = Equal"
| "compare_seq cmp [] (y # ys) = Less"
| "compare_seq cmp (x # xs) [] = Greater"
| "compare_seq cmp (x # xs) (y # ys) =
     (case cmp x y of Equal \<Rightarrow> compare_seq cmp xs ys | Less \<Rightarrow> Less | Greater \<Rightarrow> Greater)"

text \<open>
  Modelled from the spec: the comparison of two characters of an alphabetic token of
  the missing version module, by character code.
\<close>

definition compare_char :: "char \<Rightarrow> char \<Rightarrow> comparison" where
  "compare_char c d = compare_nat (of_char c) (of_char d)"

text \<open>
  Modelled from the spec: a token of a Version of the missing version module, numeric
  or alphabetic.
\<close>

datatype token = Numeric nat | Alphabetic string

text \<open>
  Modelled from the spec: the token comparison of the missing version module:
  ``numeric tokens compare numerically, alphabetic lexically, numeric < alphabetic by
  convention''.
\<close>

fun compare_token :: "token \<Rightarrow> token \<Rightarrow> comparison" where
  "compare_token (Numeric m) (Numeric n) = compare_nat m n"
| "compare_token (Numeric m) (Alphabetic t) = Less"
| "compare_token (Alphabetic s) (Numeric n) = Greater"
| "compare_token (Alphabetic s) (Alphabetic t) = compare_seq compare_char s t"

text \<open>
  Modelled from the spec: the Version of the missing version module, an ``ordered
  sequence of alphanumeric tokens''.
\<close>

type_synonym version = "token list"

text \<open>
  Modelled from the spec: \<^verbatim>\<open>compare(v1, v2)\<close> of the missing version module.
\<close>

definition compare :: "version \<Rightarrow> version \<Rightarrow> comparison" where
  "compare v1 v2 = compare_seq compare_token v1 v2"

subsection \<open>The ends of a bound as positions in the version order\<close>

text \<open>
  Modelled from the spec: the position of an end of a Bound of the missing range
  module. An inclusive lower end and an exclusive upper end at \<open>v\<close> lie just before
  \<open>v\<close> (\<open>Cut v False\<close>); an exclusive lower end and an inclusive upper end at \<open>v\<close>
  lie just after \<open>v\<close> (\<open>Cut v True\<close>); an unbounded end lies below or above every
  version.
\<close>

datatype cut = NegInf | Cut version bool | PosInf

text \<open>
  Modelled from the spec: the comparison of two such positions of the missing range
  module: by version first, and just before a version is less than just after it.
\<close>

fun compare_cut :: "cut \<Rightarrow> cut \<Rightarrow> comparison" where
  "compare_cut NegInf NegInf = Equal"
| "compare_cut NegInf d = Less"
| "compare_cut c NegInf = Greater"
| "compare_cut PosInf PosInf = Equal"
| "compare_cut PosInf d = Greater"
| "compare_cut c PosInf = Less"
| "compare_cut (Cut v a) (Cut w b) =
     (case compare v w of
        Equal \<Rightarrow> (if a = b then Equal else if b then Less else Greater)
      | Less \<Rightarrow> Less
      | Greater \<Rightarrow> Greater)"

subsection \<open>The comparisons are linear orders\<close>

text \<open>
  The range operations sort bounds by their ends, so the positions are made an
  instance of the class of linear orders; the lemmas that the instance needs come
  before it.
\<close>

lemma compare_nat_eq: "compare_nat m n = Equal \<longleftrightarrow> m = n"
  by (simp add: compare_nat_def)

lemma compare_nat_invert: "compare_nat n m = invert (compare_nat m n)"
  by (simp add: compare_nat_def)

lemma compare_nat_trans: "compare_nat a b = Less \<Longrightarrow> compare_nat b c = Less \<Longrightarrow> compare_nat a c = Less"
  by (simp add: compare_nat_def split: if_splits)

lemma compare_char_eq: "compare_char c d = Equal \<longleftrightarrow> c = d"
  by (simp add: compare_char_def compare_nat_eq)

lemma compare_char_invert: "compare_char d c = invert (compare_char c d)"
  unfolding compare_char_def by (rule compare_nat_invert)

lemma compare_char_trans: "compare_char a b = Less \<Longrightarrow> compare_char b c = Less \<Longrightarrow> compare_char a c = Less"
  unfolding compare_char_def by (rule compare_nat_trans)

lemma compare_seq_eq:
  assumes "\<And>a b. cmp a b = Equal \<longleftrightarrow> a = b"
  shows "compare_seq cmp xs ys = Equal \<longleftrightarrow> xs = ys"
proof (induction xs arbitrary: ys)
  case Nil
  then show ?case by (cases ys) simp_all
next
  case (Cons x xs)
  show ?case
  proof (cases ys)
    case Nil
    then show ?thesis by simp
  next
    case (Cons y ys')
    have "cmp x y = Equal \<longleftrightarrow> x = y" by (rule assms)
    with Cons.IH [of ys'] show ?thesis
      by (cases "cmp x y") (simp_all add: Cons)
  qed
qed

lemma compare_seq_invert:
  assumes "\<And>a b. cmp b a = invert (cmp a b)"
  shows "compare_seq cmp ys xs = invert (compare_seq cmp xs ys)"
proof (induction xs arbitrary: ys)
  case Nil
  then show ?case by (cases ys) simp_all
next
  case (Cons x xs)
  show ?case
  proof (cases ys)
    case Nil
    then show ?thesis by simp
  next
    case (Cons y ys')
    have "cmp y x = invert (cmp x y)" by (rule assms)
    with Cons.IH [of ys'] show ?thesis
      by (cases "cmp x y") (simp_all add: Cons)
  qed
qed

lemma compare_seq_trans:
  assumes eq: "\<And>a b. cmp a b = Equal \<longleftrightarrow> a = b"
    and tr: "\<And>a b c. cmp a b = Less \<Longrightarrow> cmp b c = Less \<Longrightarrow> cmp a c = Less"
  shows "compare_seq cmp xs ys = Less \<Longrightarrow> compare_seq cmp ys zs = Less \<Longrightarrow> compare_seq cmp xs zs = Less"
proof (induction xs arbitrary: ys zs)
  case Nil
  then show ?case by (cases ys; cases zs) simp_all
next
  case (Cons x xs)
  from Cons.prems obtain y ys' where ys: "ys = y # ys'" by (cases ys) simp_all
  from Cons.prems ys obtain z zs' where zs: "zs = z # zs'" by (cases zs) simp_all
  from Cons.prems(1) ys have xy: "cmp x y = Less \<or> (x = y \<and> compare_seq cmp xs ys' = Less)"
    by (auto simp: eq split: comparison.splits)
  from Cons.prems(2) ys zs have yz: "cmp y z = Less \<or> (y = z \<and> compare_seq cmp ys' zs' = Less)"
    by (auto simp: eq split: comparison.splits)
  have self: "cmp z z = Equal" by (simp add: eq)
  from xy yz show ?case
  proof (elim disjE conjE)
    assume "cmp x y = Less" "cmp y z = Less"
    then have "cmp x z = Less" by (rule tr)
    then show ?thesis by (simp add: zs)
  next
    assume "cmp x y = Less" "y = z"
    then show ?thesis by (simp add: zs)
  next
    assume "x = y" "cmp y z = Less"
    then show ?thesis by (simp add: zs)
  next
    assume "x = y" "y = z" "compare_seq cmp xs ys' = Less" "compare_seq cmp ys' zs' = Less"
    then show ?thesis using Cons.IH [of ys' zs'] self by (simp add: zs)
  qed
qed

lemma compare_token_eq: "compare_token a b = Equal \<longleftrightarrow> a = b"
  by (cases a; cases b) (simp_all add: compare_nat_eq compare_seq_eq [of compare_char, OF compare_char_eq])

lemma compare_token_invert: "compare_token b a = invert (compare_token a b)"
proof (cases a; cases b)
  fix m n assume "a = Numeric m" "b = Numeric n"
  then show ?thesis using compare_nat_invert [of n m] by simp
next
  fix s t assume "a = Alphabetic s" "b = Alphabetic t"
  then show ?thesis
    using compare_seq_invert [of compare_char t s, OF compare_char_invert] by simp
qed simp_all

lemma compare_token_trans:
  "compare_token a b = Less \<Longrightarrow> compare_token b c = Less \<Longrightarrow> compare_token a c = Less"
  by (cases a; cases b; cases c)
    (auto intro: compare_nat_trans compare_seq_trans [of compare_char, OF compare_char_eq compare_char_trans])

lemma compare_eq: "compare v1 v2 = Equal \<longleftrightarrow> v1 = v2"
  unfolding compare_def by (rule compare_seq_eq) (rule compare_token_eq)

lemma compare_invert: "compare v2 v1 = invert (compare v1 v2)"
  unfolding compare_def by (rule compare_seq_invert) (rule compare_token_invert)

lemma compare_trans: "compare v1 v2 = Less \<Longrightarrow> compare v2 v3 = Less \<Longrightarrow> compare v1 v3 = Less"
  unfolding compare_def by (rule compare_seq_trans) (rule compare_token_eq, rule compare_token_trans)

lemma compare_cut_eq: "compare_cut c d = Equal \<longleftrightarrow> c = d"
proof (cases c; cases d)
  fix v a w b assume "c = Cut v a" "d = Cut w b"
  then show ?thesis
    using compare_eq [of v w] by (cases "compare v w") auto
qed simp_all

lemma compare_cut_invert: "compare_cut d c = invert (compare_cut c d)"
proof (cases c; cases d)
  fix v a w b assume "c = Cut v a" "d = Cut w b"
  then show ?thesis
    using compare_invert [of w v] compare_eq [of v w]
    by (cases "compare v w") auto
qed simp_all

lemma compare_cut_trans:
  "compare_cut c d = Less \<Longrightarrow> compare_cut d e = Less \<Longrightarrow> compare_cut c e = Less"
proof (cases c; cases d; cases e)
  fix u a v b w k
  assume h: "compare_cut c d = Less" "compare_cut d e = Less"
    and c: "c = Cut u a" and d: "d = Cut v b" and e: "e = Cut w k"
  from h(1) c d have uv: "compare u v = Less \<or> (u = v \<and> \<not> a \<and> b)"
    by (auto simp: compare_eq split: comparison.splits if_splits)
  from h(2) d e have vw: "compare v w = Less \<or> (v = w \<and> \<not> b \<and> k)"
    by (auto simp: compare_eq split: comparison.splits if_splits)
  from uv vw have "compare u w = Less"
    by (auto intro: compare_trans)
  then show ?thesis by (simp add: c e)
qed simp_all

text \<open>
  Modelled from the spec: the order of the positions of the missing range module, read
  off \<open>compare_cut\<close>.
\<close>

instantiation cut :: linorder
begin

definition less_cut :: "cut \<Rightarrow> cut \<Rightarrow> bool" where
  "less_cut c d = (compare_cut c d = Less)"

definition less_eq_cut :: "cut \<Rightarrow> cut \<Rightarrow> bool" where
  "less_eq_cut c d = (compare_cut c d \<noteq> Greater)"

instance
proof
  fix x y z :: cut
  have inv: "compare_cut y x = invert (compare_cut x y)" by (rule compare_cut_invert)
  show "(x < y) = (x \<le> y \<and> \<not> y \<le> x)"
    using inv by (cases "compare_cut x y") (simp_all add: less_cut_def less_eq_cut_def)
  show "x \<le> x"
    using compare_cut_eq [of x x] by (simp add: less_eq_cut_def)
  show "x \<le> y \<Longrightarrow> y \<le> x \<Longrightarrow> x = y"
    using inv compare_cut_eq [of x y]
    by (cases "compare_cut x y") (simp_all add: less_eq_cut_def)
  show "x \<le> y \<or> y \<le> x"
    using inv by (cases "compare_cut x y") (simp_all add: less_eq_cut_def)
  show "x \<le> y \<Longrightarrow> y \<le> z \<Longrightarrow> x \<le> z"
  proof -
    assume xy: "x \<le> y" and yz: "y \<le> z"
    have lt: "compare_cut x y = Less \<Longrightarrow> compare_cut y z = Less \<Longrightarrow> compare_cut x z = Less"
      by (rule compare_cut_trans)
    from xy have a: "compare_cut x y = Less \<or> x = y"
      using compare_cut_eq [of x y] by (cases "compare_cut x y") (simp_all add: less_eq_cut_def)
    from yz have b: "compare_cut y z = Less \<or> y = z"
      using compare_cut_eq [of y z] by (cases "compare_cut y z") (simp_all add: less_eq_cut_def)
    from a b lt have "compare_cut x z = Less \<or> x = z" by blast
    then show "x \<le> z"
      using compare_cut_eq [of x z] by (auto simp: less_eq_cut_def)
  qed
qed

end

subsection \<open>Bounds and version ranges\<close>

text \<open>
  Modelled from the spec: the lower end of a Bound of the missing range module,
  ``inclusive/exclusive ... or unbounded''; the flag says inclusive.
\<close>

datatype lower_end = LowerUnbounded | LowerAt version bool

text \<open>
  Modelled from the spec: the upper end of a Bound of the missing range module; the
  flag says inclusive.
\<close>

datatype upper_end = UpperUnbounded | UpperAt version bool

text \<open>
  Modelled from the spec: a Bound interval of the missing range module.
\<close>

record bound =
  bound_lower :: lower_end
  bound_upper :: upper_end

text \<open>
  Modelled from the spec: the VersionRange of the missing range module, the list of
  its Bound intervals; the empty list is the range that no version satisfies.
\<close>

type_synonym version_range = "bound list"

text \<open>
  Modelled from the spec: the position of a lower end (missing range module).
\<close>

fun lower_cut :: "lower_end \<Rightarrow> cut" where
  "lower_cut LowerUnbounded = NegInf"
| "lower_cut (LowerAt v inclusive) = Cut v (\<not> inclusive)"

text \<open>
  Modelled from the spec: the position of an upper end (missing range module).
\<close>

fun upper_cut :: "upper_end \<Rightarrow> cut" where
  "upper_cut UpperUnbounded = PosInf"
| "upper_cut (UpperAt v inclusive) = Cut v inclusive"

text \<open>
  Modelled from the spec: the position where a Bound starts (missing range module).
\<close>

definition lo :: "bound \<Rightarrow> cut" where
  "lo b = lower_cut (bound_lower b)"

text \<open>
  Modelled from the spec: the position where a Bound stops (missing range module).
\<close>

definition hi :: "bound \<Rightarrow> cut" where
  "hi b = upper_cut (bound_upper b)"

text \<open>
  Modelled from the spec: a Bound of the missing range module is a proper interval
  when it starts before it stops.
\<close>

definition bound_nonempty :: "bound \<Rightarrow> bool" where
  "bound_nonempty b = (lo b < hi b)"

text \<open>
  Modelled from the spec: the intersection of two Bounds of the missing range module:
  the later start and the earlier stop.
\<close>

definition bound_intersect :: "bound \<Rightarrow> bound \<Rightarrow> bound" where
  "bound_intersect b1 b2 =
     \<lparr>bound_lower = (if lo b1 \<le> lo b2 then bound_lower b2 else bound_lower b1),
      bound_upper = (if hi b1 \<le> hi b2 then bound_upper b1 else bound_upper b2)\<rparr>"

text \<open>
  Modelled from the spec: the invariant of a VersionRange of the missing range module:
  ``bounds within a range are sorted and non-overlapping; a canonical range has no two
  adjacent touching bounds unmerged'': every bound is a proper interval and stops
  strictly before the start of each later one.
\<close>

definition canonical :: "version_range \<Rightarrow> bool" where
  "canonical r = ((\<forall>b\<in>set r. bound_nonempty b) \<and> sorted_wrt (\<lambda>b b'. hi b < lo b') r)"

text \<open>
  Modelled from the spec: the sorting key of a Bound of the missing range module
  (``sorted''): its start, then its stop.
\<close>

definition bound_key :: "bound \<Rightarrow> cut \<times> cut" where
  "bound_key b = (lo b, hi b)"

text \<open>
  Modelled from the spec: the merging pass of the missing range module over bounds
  sorted by their start: a bound that overlaps or touches the next one is merged with
  it.
\<close>

fun merge_bounds :: "bound list \<Rightarrow> bound list" where
  "merge_bounds (b1 # b2 # rest) =
     (if hi b1 < lo b2 then b1 # merge_bounds (b2 # rest)
      else merge_bounds
        (b1\<lparr>bound_upper := (if hi b1 \<le> hi b2 then bound_upper b2 else bound_upper b1)\<rparr> # rest))"
| "merge_bounds bs = bs"

text \<open>
  Modelled from the spec: the construction of a VersionRange from a list of bounds,
  which parsing, intersection and union of the missing range module share: empty
  bounds are dropped, the rest is sorted and merged.
\<close>

definition from_bounds :: "bound list \<Rightarrow> version_range" where
  "from_bounds bs = merge_bounds (sort_key bound_key (filter bound_nonempty bs))"

text \<open>
  Modelled from the spec: \<^verbatim>\<open>intersect(r1, r2) -> VersionRange\<close> of the missing range
  module: the pairwise intersections of the bounds, made a range. It never fails; the
  empty range is a legal result.
\<close>

definition intersect :: "version_range \<Rightarrow> version_range \<Rightarrow> version_range" where
  "intersect r1 r2 = from_bounds (concat (map (\<lambda>b1. map (bound_intersect b1) r2) r1))"

text \<open>
  Modelled from the spec: the union of two VersionRanges of the missing range module.
\<close>

definition union_range :: "version_range \<Rightarrow> version_range \<Rightarrow> version_range" where
  "union_range r1 r2 = from_bounds (r1 @ r2)"

text \<open>
  Modelled from the spec: the unbounded ``any'' range of the missing range module.
\<close>

definition any_range :: version_range where
  "any_range = [\<lparr>bound_lower = LowerUnbounded, bound_upper = UpperUnbounded\<rparr>]"

text \<open>
  Modelled from the spec: \<^verbatim>\<open>is_any(range) -> bool\<close> of the missing range module.
\<close>

definition is_any :: "version_range \<Rightarrow> bool" where
  "is_any r = (r = any_range)"

text \<open>
  Modelled from the spec: a version satisfies a lower end of the missing range module.
\<close>

fun lower_ok :: "lower_end \<Rightarrow> version \<Rightarrow> bool" where
  "lower_ok LowerUnbounded v = True"
| "lower_ok (LowerAt w inclusive) v =
     (if inclusive then compare w v \<noteq> Greater else compare w v = Less)"

text \<open>
  Modelled from the spec: a version satisfies an upper end of the missing range module.
\<close>

fun upper_ok :: "upper_end \<Rightarrow> version \<Rightarrow> bool" where
  "upper_ok UpperUnbounded v = True"
| "upper_ok (UpperAt w inclusive) v =
     (if inclusive then compare v w \<noteq> Greater else compare v w = Less)"

text \<open>
  Modelled from the spec: a version lies in a Bound of the missing range module.
\<close>

definition bound_contains :: "bound \<Rightarrow> version \<Rightarrow> bool" where
  "bound_contains b v = (lower_ok (bound_lower b) v \<and> upper_ok (bound_upper b) v)"

text \<open>
  Modelled from the spec: \<^verbatim>\<open>contains(range, version) -> bool\<close> of the missing range
  module.
\<close>

definition contains :: "version_range \<Rightarrow> version \<Rightarrow> bool" where
  "contains r v = (\<exists>b\<in>set r. bound_contains b v)"

text \<open>
  Modelled from the spec: the positions of the version order that a range of the
  missing range module covers: a position is covered when a bound starts at or before
  it and stops after it. The position just before \<open>v\<close> is covered exactly when the
  range contains \<open>v\<close> (lemma \<open>contains_covers\<close>).
\<close>

definition covers :: "version_range \<Rightarrow> cut \<Rightarrow> bool" where
  "covers r c = (\<exists>b\<in>set r. lo b \<le> c \<and> c < hi b)"

subsection \<open>Parsing and the ranges that the operations produce\<close>

text \<open>
  Modelled from the spec: the form in which the parser of the missing range module
  writes a lower end. Section 4.1 asks that ``semantically identical ranges expressed
  differently are equal'', and the versions above \<open>v\<close> are the versions from \<open>v.0\<close> on
  (the token 0 is the least token and a proper prefix is less), so an exclusive lower
  end at \<open>v\<close> becomes an inclusive one at \<open>v.0\<close>; an inclusive lower end at the empty
  version, below which there is no version, becomes the unbounded end.
\<close>

fun normalize_lower :: "lower_end \<Rightarrow> lower_end" where
  "normalize_lower LowerUnbounded = LowerUnbounded"
| "normalize_lower (LowerAt v inclusive) =
     (if inclusive then (if v = [] then LowerUnbounded else LowerAt v True)
      else LowerAt (v @ [Numeric 0]) True)"

text \<open>
  Modelled from the spec: the form in which the parser of the missing range module
  writes an upper end: an inclusive upper end at \<open>v\<close> becomes an exclusive one at
  \<open>v.0\<close>.
\<close>

fun normalize_upper :: "upper_end \<Rightarrow> upper_end" where
  "normalize_upper UpperUnbounded = UpperUnbounded"
| "normalize_upper (UpperAt v inclusive) =
     (if inclusive then UpperAt (v @ [Numeric 0]) False else UpperAt v False)"

text \<open>
  Modelled from the spec: a Bound with both ends in the form the parser of the missing
  range module writes.
\<close>

definition normalize_ends :: "bound \<Rightarrow> bound" where
  "normalize_ends b =
     \<lparr>bound_lower = normalize_lower (bound_lower b), bound_upper = normalize_upper (bound_upper b)\<rparr>"

text \<open>
  Modelled from the spec: parsing in the missing range module, from the bounds that a
  range text writes (its comma/pipe-separated alternatives) on: a bound below the empty
  version holds no version and is dropped, the ends of the others are written in one
  form, and the range is built from them. The spec gives no grammar for the text
  itself, so the step from the characters to the written bounds is not modelled.
\<close>

definition parse_range :: "bound list \<Rightarrow> version_range" where
  "parse_range bs =
     from_bounds (map normalize_ends (filter (\<lambda>b. bound_upper b \<noteq> UpperAt [] False) bs))"

text \<open>
  Modelled from the spec: the VersionRanges ``produced by any range operation'' of the
  missing range module: parsing, and the intersection and the union of produced ranges.
\<close>

inductive produced :: "version_range \<Rightarrow> bool" where
  by_parsing: "produced (parse_range bs)"
| by_intersection: "produced r1 \<Longrightarrow> produced r2 \<Longrightarrow> produced (intersect r1 r2)"
| by_union: "produced r1 \<Longrightarrow> produced r2 \<Longrightarrow> produced (union_range r1 r2)"

text \<open>
  Modelled from the spec: a lower end in the form the parser of the missing range
  module writes.
\<close>

fun lower_normal :: "lower_end \<Rightarrow> bool" where
  "lower_normal LowerUnbounded = True"
| "lower_normal (LowerAt v inclusive) = (inclusive \<and> v \<noteq> [])"

text \<open>
  Modelled from the spec: an upper end in the form the parser of the missing range
  module writes.
\<close>

fun upper_normal :: "upper_end \<Rightarrow> bool" where
  "upper_normal UpperUnbounded = True"
| "upper_normal (UpperAt v inclusive) = (\<not> inclusive \<and> v \<noteq> [])"

text \<open>
  Modelled from the spec: a range of the missing range module all of whose ends are in
  that form.
\<close>

definition ends_normal :: "bound list \<Rightarrow> bool" where
  "ends_normal r = (\<forall>b\<in>set r. lower_normal (bound_lower b) \<and> upper_normal (bound_upper b))"

section \<open>Properties of the Git Bash plugin\<close>

text \<open>
  Claim C8. \<^verbatim>\<open>as_path\<close> returns its argument unchanged, whatever the value of
  \<^verbatim>\<open>disable_normalization\<close>.
\<close>

theorem as_path_identity: "as_path cfg path = path"
  by (simp add: as_path_def)

subsection \<open>Helper lemmas on the string operations\<close>

lemma letter_not_colon: "is_letter c \<Longrightarrow> c \<noteq> colon"
  by (auto simp: is_letter_def is_upper_def is_lower_def colon_def)

lemma letter_not_backslash: "is_letter c \<Longrightarrow> c \<noteq> backslash"
  by (auto simp: is_letter_def is_upper_def is_lower_def backslash_def)

lemma upper_lower_not_backslash:
  assumes "is_upper c"
  shows "char_of ((of_char c :: nat) + 32) \<noteq> backslash"
proof
  assume "char_of ((of_char c :: nat) + 32) = backslash"
  then have "(of_char (char_of ((of_char c :: nat) + 32)) :: nat) = of_char backslash"
    by simp
  then have "((of_char c :: nat) + 32) mod 256 = 92"
    by (simp add: backslash_def)
  with assms show False
    by (simp add: is_upper_def)
qed

lemma letter_lower_not_backslash: "is_letter c \<Longrightarrow> lower_char c \<noteq> backslash"
  using upper_lower_not_backslash [of c]
  by (auto simp: is_letter_def is_lower_def backslash_def lower_char_def)

lemma drive_regex_sub_drive:
  "is_letter c \<Longrightarrow>
   drive_regex_sub (pre @ c # colon # backslash # post) =
   drive_regex_sub pre @ fwdslash # lower_char c # fwdslash # drive_regex_sub post"
  by (induction pre rule: drive_regex_sub.induct)
    (simp_all add: letter_not_colon letter_not_backslash)

lemma has_drive_iff:
  "has_drive path \<longleftrightarrow> (\<exists>pre c post. is_letter c \<and> path = pre @ [c, colon, backslash] @ post)"
proof (induction path rule: has_drive.induct)
  case (1 a b c rest)
  show ?case
  proof
    assume "has_drive (a # b # c # rest)"
    then consider "is_letter a \<and> b = colon \<and> c = backslash" | "has_drive (b # c # rest)" by auto
    then show "\<exists>pre c' post. is_letter c' \<and> a # b # c # rest = pre @ [c', colon, backslash] @ post"
    proof cases
      case 1
      then have "is_letter a \<and> a # b # c # rest = [] @ [a, colon, backslash] @ rest" by simp
      then show ?thesis by blast
    next
      case 2
      with 1 obtain pre c' post where "is_letter c'" "b # c # rest = pre @ [c', colon, backslash] @ post" by blast
      then have "is_letter c' \<and> a # b # c # rest = (a # pre) @ [c', colon, backslash] @ post" by simp
      then show ?thesis by blast
    qed
  next
    assume "\<exists>pre c' post. is_letter c' \<and> a # b # c # rest = pre @ [c', colon, backslash] @ post"
    then obtain pre c' post where h: "is_letter c'" "a # b # c # rest = pre @ [c', colon, backslash] @ post" by blast
    show "has_drive (a # b # c # rest)"
    proof (cases pre)
      case Nil
      with h show ?thesis by simp
    next
      case (Cons x pre')
      with h have "b # c # rest = pre' @ [c', colon, backslash] @ post" by simp
      with h(1) 1 have "has_drive (b # c # rest)" by blast
      then show ?thesis by simp
    qed
  qed
qed simp_all

lemma drive_regex_sub_no_drive: "\<not> has_drive path \<Longrightarrow> drive_regex_sub path = path"
  by (induction path rule: drive_regex_sub.induct) auto

lemma replace_char_append: "replace_char old new (xs @ ys) = replace_char old new xs @ replace_char old new ys"
  by (simp add: replace_char_def)

lemma replace_char_single: "replace_char old [new] s = map (\<lambda>c. if c = old then new else c) s"
  by (induction s) (auto simp: replace_char_def)

lemma str_in_iff: "str_in needle hay \<longleftrightarrow> (\<exists>pre post. hay = pre @ needle @ post)"
proof (induction hay)
  case Nil
  then show ?case by auto
next
  case (Cons c cs)
  show ?case
  proof
    assume "str_in needle (c # cs)"
    then consider "prefix needle (c # cs)" | "str_in needle cs" by auto
    then show "\<exists>pre post. c # cs = pre @ needle @ post"
    proof cases
      case 1
      then obtain post where "c # cs = [] @ needle @ post" by (auto simp: prefix_def)
      then show ?thesis by blast
    next
      case 2
      with Cons obtain pre post where "cs = pre @ needle @ post" by blast
      then have "c # cs = (c # pre) @ needle @ post" by simp
      then show ?thesis by blast
    qed
  next
    assume "\<exists>pre post. c # cs = pre @ needle @ post"
    then obtain pre post where h: "c # cs = pre @ needle @ post" by blast
    show "str_in needle (c # cs)"
    proof (cases pre)
      case Nil
      with h have "prefix needle (c # cs)" by (simp add: prefix_def)
      then show ?thesis by simp
    next
      case (Cons x pre')
      with h have "cs = pre' @ needle @ post" by simp
      with Cons.IH have "str_in needle cs" by blast
      then show ?thesis by simp
    qed
  qed
qed

text \<open>
  Claim C9. With \<^verbatim>\<open>disable_normalization\<close> set, \<^verbatim>\<open>normalize_paths\<close> returns the path
  unchanged. Otherwise the result holds no backslash; every drive prefix (a letter, a
  colon, a backslash) is rewritten to slash, lowered letter, slash, the text before and
  after it being normalized the same way; and a path with no drive prefix has each
  backslash replaced by a slash and nothing else changed.
\<close>

theorem normalize_paths_spec:
  "(disable_normalization cfg \<longrightarrow> fst (normalize_paths cfg py_repr script path) = path) \<and>
   (\<not> disable_normalization cfg \<longrightarrow>
      backslash \<notin> set (fst (normalize_paths cfg py_repr script path)) \<and>
      (is_letter c \<longrightarrow>
         fst (normalize_paths cfg py_repr script (pre @ [c, colon, backslash] @ post)) =
         fst (normalize_paths cfg py_repr script pre) @ [fwdslash, lower_char c, fwdslash] @
         fst (normalize_paths cfg py_repr script post)) \<and>
      ((\<nexists>pre c post. is_letter c \<and> path = pre @ [c, colon, backslash] @ post) \<longrightarrow>
         fst (normalize_paths cfg py_repr script path) =
         map (\<lambda>x. if x = backslash then fwdslash else x) path))"
proof -
  have out: "\<not> disable_normalization cfg \<Longrightarrow>
      fst (normalize_paths cfg py_repr script p) = replace_char backslash [fwdslash] (drive_regex_sub p)" for p
    by (simp add: normalize_paths_def Let_def)
  have ne: "backslash \<noteq> fwdslash" by (simp add: backslash_def fwdslash_def)
  have a: "disable_normalization cfg \<Longrightarrow> fst (normalize_paths cfg py_repr script path) = path"
    by (simp add: normalize_paths_def)
  have b: "backslash \<notin> set (replace_char backslash [fwdslash] s)" for s
    using ne by (auto simp: replace_char_single)
  have c: "is_letter c \<Longrightarrow>
      replace_char backslash [fwdslash] (drive_regex_sub (pre @ [c, colon, backslash] @ post)) =
      replace_char backslash [fwdslash] (drive_regex_sub pre) @ [fwdslash, lower_char c, fwdslash] @
      replace_char backslash [fwdslash] (drive_regex_sub post)"
    using ne by (simp add: drive_regex_sub_drive replace_char_append replace_char_single letter_lower_not_backslash)
  have d: "(\<nexists>pre c post. is_letter c \<and> path = pre @ [c, colon, backslash] @ post) \<Longrightarrow>
      replace_char backslash [fwdslash] (drive_regex_sub path) = map (\<lambda>x. if x = backslash then fwdslash else x) path"
    by (simp add: drive_regex_sub_no_drive has_drive_iff replace_char_single)
  show ?thesis using a b c d by (simp add: out)
qed



theorem normalize_paths_spec_witness:
  "disable_normalization \<lparr>disable_normalization = True, plugins_shell_gitbash = \<lparr>executable_fullpath = None\<rparr>\<rparr> \<and>
   fst (normalize_paths \<lparr>disable_normalization = True, plugins_shell_gitbash = \<lparr>executable_fullpath = None\<rparr>\<rparr>
          (\<lambda>s. s) [] (''C:'' @ [backslash] @ ''foo'')) = ''C:'' @ [backslash] @ ''foo'' \<and>
   \<not> disable_normalization \<lparr>disable_normalization = False, plugins_shell_gitbash = \<lparr>executable_fullpath = None\<rparr>\<rparr> \<and>
   is_letter CHR ''C'' \<and>
   fst (normalize_paths \<lparr>disable_normalization = False, plugins_shell_gitbash = \<lparr>executable_fullpath = None\<rparr>\<rparr>
          (\<lambda>s. s) [] ([] @ [CHR ''C'', colon, backslash] @ (''foo'' @ [backslash] @ ''bar''))) = ''/c/foo/bar'' \<and>
   \<not> has_drive (''foo'' @ [backslash] @ ''bar'') \<and>
   fst (normalize_paths \<lparr>disable_normalization = False, plugins_shell_gitbash = \<lparr>executable_fullpath = None\<rparr>\<rparr>
          (\<lambda>s. s) [] (''foo'' @ [backslash] @ ''bar'')) = ''foo/bar''"
proof -
  let ?on = "\<lparr>disable_normalization = False, plugins_shell_gitbash = \<lparr>executable_fullpath = None\<rparr>\<rparr>"
  let ?off = "\<lparr>disable_normalization = True, plugins_shell_gitbash = \<lparr>executable_fullpath = None\<rparr>\<rparr>"
  let ?fb = "''foo'' @ [backslash] @ ''bar''"
  have l: "is_letter CHR ''C''"
    by (simp add: is_letter_def is_upper_def)
  have n: "\<not> has_drive ?fb"
    by (simp add: is_letter_def is_upper_def is_lower_def colon_def backslash_def)
  have fb: "fst (normalize_paths ?on (\<lambda>s. s) [] ?fb) = ''foo/bar''"
    using normalize_paths_spec [of ?on "\<lambda>s. s" "[]" ?fb] n
    by (simp add: has_drive_iff backslash_def fwdslash_def)
  have e: "fst (normalize_paths ?on (\<lambda>s. s) [] []) = []"
    by (simp add: normalize_paths_def replace_char_def)
  have lc: "lower_char CHR ''C'' = CHR ''c''"
    by code_simp
  have d: "fst (normalize_paths ?on (\<lambda>s. s) [] ([] @ [CHR ''C'', colon, backslash] @ ?fb)) = ''/c/foo/bar''"
    using normalize_paths_spec [of ?on "\<lambda>s. s" "[]" "[]" "CHR ''C''" "[]" ?fb] l fb e
    by (simp add: fwdslash_def lc)
  have o: "fst (normalize_paths ?off (\<lambda>s. s) [] (''C:'' @ [backslash] @ ''foo'')) = ''C:'' @ [backslash] @ ''foo''"
    using normalize_paths_spec [of ?off "\<lambda>s. s" "[]" "''C:'' @ [backslash] @ ''foo''"]
    by simp
  show ?thesis using l n fb d o by simp
qed

text \<open>
  Claim C10. When \<^verbatim>\<open>executable_fullpath\<close> is set (a non-empty string),
  \<^verbatim>\<open>find_executable\<close> returns it if the file exists and raises \<^verbatim>\<open>RuntimeError\<close>
  if not. When it is not set and the base Bash lookup found a path, a path that holds
  \<^verbatim>\<open>system32\<close> in any letter case raises \<^verbatim>\<open>ValueError\<close>, and any other path is
  returned with each backslash doubled.
\<close>

theorem find_executable_spec:
  "(executable_fullpath (plugins_shell_gitbash cfg) = Some p \<and> p \<noteq> [] \<longrightarrow>
      find_executable cfg path_exists bash_found =
        (if path_exists p then Inr p
         else Inl (RuntimeError (''Couldn'' @ [quote] @ ''t find executable '' @ [quote] @ p @ [quote] @ ''.'')))) \<and>
   (\<not> truthy (executable_fullpath (plugins_shell_gitbash cfg)) \<and> bash_found = Inr (Some exepath) \<longrightarrow>
      find_executable cfg path_exists bash_found =
        (if (\<exists>pre post. lower exepath = pre @ ''system32'' @ post)
         then Inl (ValueError (''Gitbash executable is not correct: '' @ exepath))
         else Inr (concat (map (\<lambda>c. if c = backslash then [backslash, backslash] else [c]) exepath))))"
proof -
  have sys: "(\<exists>pre post. lower exepath = pre @ ''system32'' @ post) = str_in ''system32'' (lower exepath)"
    by (simp only: str_in_iff)
  have emp: "exepath = [] \<Longrightarrow> \<not> str_in ''system32'' (lower exepath)"
    by (simp add: lower_def)
  have set: "executable_fullpath (plugins_shell_gitbash cfg) = Some p \<and> p \<noteq> [] \<Longrightarrow>
      find_executable cfg path_exists bash_found =
        (if path_exists p then Inr p
         else Inl (RuntimeError (''Couldn'' @ [quote] @ ''t find executable '' @ [quote] @ p @ [quote] @ ''.'')))"
    by (simp add: find_executable_def Let_def)
  have unset: "\<not> truthy (executable_fullpath (plugins_shell_gitbash cfg)) \<and> bash_found = Inr (Some exepath) \<Longrightarrow>
      find_executable cfg path_exists bash_found =
        (if str_in ''system32'' (lower exepath)
         then Inl (ValueError (''Gitbash executable is not correct: '' @ exepath))
         else Inr (concat (map (\<lambda>c. if c = backslash then [backslash, backslash] else [c]) exepath)))"
    using emp by (auto simp: find_executable_def Let_def replace_char_def)
  show ?thesis
    unfolding sys using set unset by blast
qed


theorem find_executable_spec_witness:
  "find_executable
     \<lparr>disable_normalization = False, plugins_shell_gitbash = \<lparr>executable_fullpath = Some ''/usr/bin/bash''\<rparr>\<rparr>
     (\<lambda>p. p = ''/usr/bin/bash'') (Inr None) = Inr ''/usr/bin/bash'' \<and>
   find_executable
     \<lparr>disable_normalization = False, plugins_shell_gitbash = \<lparr>executable_fullpath = Some ''/usr/bin/bash''\<rparr>\<rparr>
     (\<lambda>p. False) (Inr None) =
     Inl (RuntimeError (''Couldn'' @ [quote] @ ''t find executable '' @ [quote] @ ''/usr/bin/bash'' @ [quote] @ ''.'')) \<and>
   str_in ''system32'' (lower (''C:'' @ [backslash] @ ''Windows'' @ [backslash] @ ''System32'' @ [backslash] @ ''bash.exe'')) \<and>
   find_executable
     \<lparr>disable_normalization = False, plugins_shell_gitbash = \<lparr>executable_fullpath = None\<rparr>\<rparr>
     (\<lambda>p. False)
     (Inr (Some (''C:'' @ [backslash] @ ''Windows'' @ [backslash] @ ''System32'' @ [backslash] @ ''bash.exe''))) =
     Inl (ValueError (''Gitbash executable is not correct: '' @
        ''C:'' @ [backslash] @ ''Windows'' @ [backslash] @ ''System32'' @ [backslash] @ ''bash.exe'')) \<and>
   \<not> str_in ''system32'' (lower (''C:'' @ [backslash] @ ''Git'' @ [backslash] @ ''bash.exe'')) \<and>
   find_executable
     \<lparr>disable_normalization = False, plugins_shell_gitbash = \<lparr>executable_fullpath = Some []\<rparr>\<rparr>
     (\<lambda>p. False)
     (Inr (Some (''C:'' @ [backslash] @ ''Git'' @ [backslash] @ ''bash.exe''))) =
     Inr (''C:'' @ [backslash, backslash] @ ''Git'' @ [backslash, backslash] @ ''bash.exe'')"
proof -
  let ?set = "\<lparr>disable_normalization = False, plugins_shell_gitbash = \<lparr>executable_fullpath = Some ''/usr/bin/bash''\<rparr>\<rparr>"
  let ?none = "\<lparr>disable_normalization = False, plugins_shell_gitbash = \<lparr>executable_fullpath = None\<rparr>\<rparr>"
  let ?empty = "\<lparr>disable_normalization = False, plugins_shell_gitbash = \<lparr>executable_fullpath = Some []\<rparr>\<rparr>"
  let ?sys = "''C:'' @ [backslash] @ ''Windows'' @ [backslash] @ ''System32'' @ [backslash] @ ''bash.exe''"
  let ?git = "''C:'' @ [backslash] @ ''Git'' @ [backslash] @ ''bash.exe''"
  have s1: "str_in ''system32'' (lower ?sys)"
    by code_simp
  have s2: "\<not> str_in ''system32'' (lower ?git)"
    by code_simp
  have a: "find_executable ?set (\<lambda>p. p = ''/usr/bin/bash'') (Inr None) = Inr ''/usr/bin/bash''"
    using find_executable_spec [of ?set "''/usr/bin/bash''" "\<lambda>p. p = ''/usr/bin/bash''" "Inr None"]
    by simp
  have b: "find_executable ?set (\<lambda>p. False) (Inr None) =
     Inl (RuntimeError (''Couldn'' @ [quote] @ ''t find executable '' @ [quote] @ ''/usr/bin/bash'' @ [quote] @ ''.''))"
    using find_executable_spec [of ?set "''/usr/bin/bash''" "\<lambda>p. False" "Inr None"]
    by simp
  have c: "find_executable ?none (\<lambda>p. False) (Inr (Some ?sys)) =
     Inl (ValueError (''Gitbash executable is not correct: '' @ ?sys))"
    using find_executable_spec [of ?none _ "\<lambda>p. False" "Inr (Some ?sys)" ?sys] s1
    by (simp only: str_in_iff) simp
  have d: "find_executable ?empty (\<lambda>p. False) (Inr (Some ?git)) =
     Inr (''C:'' @ [backslash, backslash] @ ''Git'' @ [backslash, backslash] @ ''bash.exe'')"
    using find_executable_spec [of ?empty _ "\<lambda>p. False" "Inr (Some ?git)" ?git] s2
    by (simp only: str_in_iff) (simp add: backslash_def)
  show ?thesis using s1 s2 a b c d by blast
qed

section \<open>Properties of the version and range algebra\<close>

subsection \<open>Helper lemmas on bounds and canonical ranges\<close>

lemma NegInf_least: "NegInf \<le> c"
  by (cases c) (simp_all add: less_eq_cut_def)

lemma PosInf_greatest: "c \<le> PosInf"
  by (cases c) (simp_all add: less_eq_cut_def)

lemma lower_cut_inj: "lower_cut l = lower_cut l' \<Longrightarrow> l = l'"
  by (cases l; cases l') auto

lemma upper_cut_inj: "upper_cut u = upper_cut u' \<Longrightarrow> u = u'"
  by (cases u; cases u') auto

lemma bound_eqI: "lo a = lo b \<Longrightarrow> hi a = hi b \<Longrightarrow> a = b"
  by (cases a; cases b) (auto simp: lo_def hi_def dest: lower_cut_inj upper_cut_inj)

lemma lo_intersect: "lo (bound_intersect a b) = max (lo a) (lo b)"
  by (auto simp: bound_intersect_def lo_def max_def)

lemma hi_intersect: "hi (bound_intersect a b) = min (hi a) (hi b)"
  by (auto simp: bound_intersect_def hi_def min_def)

lemma bound_intersect_commute: "bound_intersect a b = bound_intersect b a"
  by (rule bound_eqI) (simp_all add: lo_intersect hi_intersect max.commute min.commute)

lemma bound_intersect_idem: "bound_intersect a a = a"
  by (rule bound_eqI) (simp_all add: lo_intersect hi_intersect)

lemma inj_bound_key: "inj_on bound_key A"
  by (rule inj_onI) (auto simp: bound_key_def intro: bound_eqI)

lemma lo_upd: "lo (b\<lparr>bound_upper := u\<rparr>) = lo b"
  by (simp add: lo_def)

lemma hi_upd: "hi (b\<lparr>bound_upper := u\<rparr>) = upper_cut u"
  by (simp add: hi_def)

lemma hi_merged: "hi (b1\<lparr>bound_upper := (if hi b1 \<le> hi b2 then bound_upper b2 else bound_upper b1)\<rparr>) = max (hi b1) (hi b2)"
  by (auto simp: hi_def max_def)

lemma lo_merge_bounds: "lo ` set (merge_bounds xs) \<subseteq> lo ` set xs"
proof (induction xs rule: merge_bounds.induct)
  case (1 b1 b2 rest)
  show ?case
  proof (cases "hi b1 < lo b2")
    case True
    with 1 show ?thesis by auto
  next
    case False
    let ?m = "b1\<lparr>bound_upper := (if hi b1 \<le> hi b2 then bound_upper b2 else bound_upper b1)\<rparr>"
    from 1 False have "lo ` set (merge_bounds (?m # rest)) \<subseteq> lo ` set (?m # rest)" by simp
    also have "\<dots> \<subseteq> lo ` set (b1 # b2 # rest)" by (auto simp: lo_upd)
    finally show ?thesis using False by simp
  qed
qed simp_all

lemma canonical_merge_bounds:
  "\<forall>b\<in>set xs. bound_nonempty b \<Longrightarrow> sorted (map lo xs) \<Longrightarrow> canonical (merge_bounds xs)"
proof (induction xs rule: merge_bounds.induct)
  case (1 b1 b2 rest)
  show ?case
  proof (cases "hi b1 < lo b2")
    case True
    from 1 True have ih: "canonical (merge_bounds (b2 # rest))" by simp
    have "hi b1 < lo x" if "x \<in> set (merge_bounds (b2 # rest))" for x
    proof -
      from that lo_merge_bounds [of "b2 # rest"] have "lo x \<in> lo ` set (b2 # rest)" by blast
      with "1.prems"(2) have "lo b2 \<le> lo x" by auto
      with True show ?thesis by simp
    qed
    with ih "1.prems"(1) True show ?thesis by (simp add: canonical_def)
  next
    case False
    let ?m = "b1\<lparr>bound_upper := (if hi b1 \<le> hi b2 then bound_upper b2 else bound_upper b1)\<rparr>"
    have ne: "bound_nonempty ?m"
      using "1.prems"(1) unfolding bound_nonempty_def hi_merged lo_upd
      by (simp add: less_max_iff_disj)
    have "sorted (map lo (?m # rest))"
      using "1.prems"(2) by (simp add: lo_upd)
    with 1 False ne show ?thesis by simp
  qed
qed (simp_all add: canonical_def)

lemma fst_le: "(a::cut \<times> cut) \<le> b \<Longrightarrow> fst a \<le> fst b"
  by (auto simp: less_eq_prod_def)

lemma sorted_key_lo: "sorted (map bound_key xs) \<Longrightarrow> sorted (map lo xs)"
  unfolding sorted_map
  by (erule sorted_wrt_mono_rel [rotated]) (auto simp: bound_key_def dest: fst_le)

lemma canonical_from_bounds: "canonical (from_bounds bs)"
  unfolding from_bounds_def
  by (rule canonical_merge_bounds) (auto intro: sorted_key_lo)

lemma canonical_sorted_key: "canonical r \<Longrightarrow> sorted (map bound_key r)"
  unfolding sorted_map canonical_def
  apply (erule conjE)
  apply (erule sorted_wrt_mono_rel [rotated])
  apply (auto simp: bound_key_def less_eq_prod_def bound_nonempty_def)
  done

lemma merge_bounds_canonical: "sorted_wrt (\<lambda>b b'. hi b < lo b') r \<Longrightarrow> merge_bounds r = r"
  by (induction r rule: merge_bounds.induct) auto

lemma from_bounds_canonical: "canonical r \<Longrightarrow> from_bounds r = r"
proof -
  assume c: "canonical r"
  then have f: "filter bound_nonempty r = r" by (simp add: canonical_def)
  from c have "sort_key bound_key r = r"
    by (intro sort_key_id_if_sorted canonical_sorted_key)
  with c f show ?thesis by (simp add: from_bounds_def merge_bounds_canonical canonical_def)
qed

lemma from_bounds_mset: "mset bs = mset bs' \<Longrightarrow> from_bounds bs = from_bounds bs'"
proof -
  assume "mset bs = mset bs'"
  then have m: "mset (filter bound_nonempty bs) = mset (filter bound_nonempty bs')"
    by (metis mset_filter)
  have "sort_key bound_key (filter bound_nonempty bs) = sort_key bound_key (filter bound_nonempty bs')"
  proof (rule sort_key_inj_key_eq)
    show "mset (filter bound_nonempty bs) = mset (sort_key bound_key (filter bound_nonempty bs'))"
      using m by (simp only: mset_sort)
    show "inj_on bound_key (set (filter bound_nonempty bs))"
      by (rule inj_bound_key)
    show "sorted (map bound_key (sort_key bound_key (filter bound_nonempty bs')))"
      by (rule sorted_sort_key)
  qed
  then show ?thesis by (simp add: from_bounds_def)
qed


lemma mset_concat_cons:
  "mset (concat (map (\<lambda>y. g y # h y) ys)) = mset (map g ys) + mset (concat (map h ys))"
  by (induction ys) simp_all

lemma mset_product_swap:
  "mset (concat (map (\<lambda>x. map (f x) ys) xs)) = mset (concat (map (\<lambda>y. map (\<lambda>x. f x y) xs) ys))"
proof (induction xs)
  case Nil
  then show ?case by (induction ys) simp_all
next
  case (Cons x xs)
  then show ?case by (simp add: mset_concat_cons)
qed

lemma intersect_commute: "intersect r1 r2 = intersect r2 r1"
proof -
  have "(\<lambda>y. map (\<lambda>x. bound_intersect x y) r1) = (\<lambda>y. map (bound_intersect y) r1)"
    by (simp add: bound_intersect_commute)
  then have "mset (concat (map (\<lambda>b1. map (bound_intersect b1) r2) r1)) =
        mset (concat (map (\<lambda>b2. map (bound_intersect b2) r1) r2))"
    using mset_product_swap [of bound_intersect r2 r1] by simp
  then show ?thesis
    unfolding intersect_def by (rule from_bounds_mset)
qed

lemma disjoint_intersect_empty:
  "hi a < lo b \<or> hi b < lo a \<Longrightarrow> \<not> bound_nonempty (bound_intersect a b)"
  by (auto simp: bound_nonempty_def lo_intersect hi_intersect)

lemma filter_intersect_disjoint:
  "\<forall>x\<in>set xs. hi b < lo x \<or> hi x < lo b \<Longrightarrow>
   filter bound_nonempty (map (bound_intersect b) xs) = []"
  using disjoint_intersect_empty [of b] by (induction xs) auto

lemma filter_intersect_self:
  assumes "canonical r" and "b \<in> set r"
  shows "filter bound_nonempty (map (bound_intersect b) r) = [b]"
proof -
  from assms(2) obtain pre post where r: "r = pre @ b # post"
    by (auto dest: split_list)
  from assms(1) have ne: "bound_nonempty b"
    by (simp add: canonical_def r)
  from assms(1) have pre: "\<forall>x\<in>set pre. hi x < lo b" and post: "\<forall>x\<in>set post. hi b < lo x"
    by (auto simp: canonical_def r sorted_wrt_append)
  have 1: "filter bound_nonempty (map (bound_intersect b) pre) = []"
    using pre by (intro filter_intersect_disjoint) auto
  have 2: "filter bound_nonempty (map (bound_intersect b) post) = []"
    using post by (intro filter_intersect_disjoint) auto
  show ?thesis
    using 1 2 ne by (simp add: r bound_intersect_idem)
qed

lemma filter_concat_map:
  "filter P (concat (map f xs)) = concat (map (\<lambda>x. filter P (f x)) xs)"
  by (induction xs) simp_all

lemma concat_singletons: "concat (map (\<lambda>x. [x]) xs) = xs"
  by (induction xs) simp_all

lemma from_bounds_filter: "from_bounds (filter bound_nonempty bs) = from_bounds bs"
  by (simp add: from_bounds_def)

lemma intersect_idem: "canonical r \<Longrightarrow> intersect r r = r"
proof -
  assume c: "canonical r"
  let ?p = "concat (map (\<lambda>b1. map (bound_intersect b1) r) r)"
  have "filter bound_nonempty ?p = concat (map (\<lambda>b1. filter bound_nonempty (map (bound_intersect b1) r)) r)"
    by (rule filter_concat_map)
  also have "\<dots> = concat (map (\<lambda>b1. [b1]) r)"
    using c by (intro arg_cong [where f = concat] map_cong refl filter_intersect_self)
  also have "\<dots> = r" by (rule concat_singletons)
  finally have "filter bound_nonempty ?p = r" .
  then have "from_bounds ?p = from_bounds r"
    using from_bounds_filter [of ?p] by simp
  with c show ?thesis
    by (simp add: intersect_def from_bounds_canonical)
qed

lemma bound_intersect_any:
  "bound_intersect b \<lparr>bound_lower = LowerUnbounded, bound_upper = UpperUnbounded\<rparr> = b"
proof (rule bound_eqI)
  let ?a = "\<lparr>bound_lower = LowerUnbounded, bound_upper = UpperUnbounded\<rparr>"
  have "lo ?a = NegInf" "hi ?a = PosInf" by (simp_all add: lo_def hi_def)
  then show "lo (bound_intersect b ?a) = lo b" "hi (bound_intersect b ?a) = hi b"
    by (simp_all add: lo_intersect hi_intersect max_absorb1 min_absorb1 NegInf_least PosInf_greatest)
qed

lemma intersect_any: "canonical r \<Longrightarrow> intersect r any_range = r"
  by (simp add: intersect_def any_range_def bound_intersect_any concat_singletons from_bounds_canonical)

lemma covers_Nil: "\<not> covers [] c"
  by (simp add: covers_def)

lemma covers_Cons: "covers (b # r) c \<longleftrightarrow> (lo b \<le> c \<and> c < hi b) \<or> covers r c"
  by (auto simp: covers_def)

lemma canonical_Cons:
  "canonical (b # r) \<longleftrightarrow> lo b < hi b \<and> (\<forall>x\<in>set r. hi b < lo x) \<and> canonical r"
  by (auto simp: canonical_def bound_nonempty_def)

lemma canonical_head_least:
  assumes "canonical (b # r)" and "covers (b # r) c"
  shows "lo b \<le> c"
proof -
  from assms(2) obtain x where x: "x \<in> set (b # r)" "lo x \<le> c" by (auto simp: covers_def)
  from assms(1) x(1) have "lo b \<le> lo x"
    by (auto simp: canonical_Cons intro: less_imp_le order.strict_trans)
  with x(2) show ?thesis by simp
qed

lemma canonical_head_upper:
  assumes "canonical (b # r)"
  shows "\<not> covers (b # r) (hi b)"
proof
  assume "covers (b # r) (hi b)"
  then obtain x where x: "x \<in> set (b # r)" "lo x \<le> hi b" "hi b < hi x" by (auto simp: covers_def)
  from x(3) have "x \<noteq> b" by auto
  with x(1) have "x \<in> set r" by simp
  with assms have "hi b < lo x" by (simp add: canonical_Cons)
  with x(2) show False by simp
qed

lemma canonical_tail_disjoint:
  assumes "canonical (b # r)" and "covers r c"
  shows "\<not> (lo b \<le> c \<and> c < hi b)"
proof
  assume h: "lo b \<le> c \<and> c < hi b"
  from assms(2) obtain x where x: "x \<in> set r" "lo x \<le> c" by (auto simp: covers_def)
  with assms(1) have "hi b < lo x" by (simp add: canonical_Cons)
  moreover from h have "lo b \<le> c" "c < hi b" by simp_all
  ultimately show False using x(2) by order
qed

lemma canonical_head_eq:
  assumes ca: "canonical (a # r1)" and cb: "canonical (b # r2)"
    and eq: "\<And>c. covers (a # r1) c = covers (b # r2) c"
  shows "a = b"
proof (rule bound_eqI)
  have na: "lo a < hi a" and nb: "lo b < hi b"
    using ca cb by (simp_all add: canonical_Cons)
  have "covers (a # r1) (lo a)" using na by (simp add: covers_Cons)
  then have "covers (b # r2) (lo a)" by (simp add: eq)
  with cb have 1: "lo b \<le> lo a" by (rule canonical_head_least)
  have "covers (b # r2) (lo b)" using nb by (simp add: covers_Cons)
  then have "covers (a # r1) (lo b)" by (simp add: eq)
  with ca have 2: "lo a \<le> lo b" by (rule canonical_head_least)
  from 1 2 show l: "lo a = lo b" by simp
  show "hi a = hi b"
  proof (rule ccontr)
    assume "hi a \<noteq> hi b"
    then consider "hi a < hi b" | "hi b < hi a" by (auto simp: neq_iff)
    then show False
    proof cases
      case 1
      from na l have "lo b \<le> hi a" by order
      with 1 have "lo b \<le> hi a \<and> hi a < hi b" by simp
      then have "covers (b # r2) (hi a)" by (simp add: covers_Cons)
      then have "covers (a # r1) (hi a)" by (simp add: eq)
      with canonical_head_upper [OF ca] show False by simp
    next
      case 2
      from nb l have "lo a \<le> hi b" by order
      with 2 have "lo a \<le> hi b \<and> hi b < hi a" by simp
      then have "covers (a # r1) (hi b)" by (simp add: covers_Cons)
      then have "covers (b # r2) (hi b)" by (simp add: eq)
      with canonical_head_upper [OF cb] show False by simp
    qed
  qed
qed

lemma canonical_unique:
  "canonical r1 \<Longrightarrow> canonical r2 \<Longrightarrow> (\<And>c. covers r1 c = covers r2 c) \<Longrightarrow> r1 = r2"
proof (induction r1 arbitrary: r2)
  case Nil
  show ?case
  proof (cases r2)
    case Nil
    then show ?thesis by simp
  next
    case (Cons b r2')
    with Nil.prems(2) have "covers r2 (lo b)" by (simp add: canonical_Cons covers_Cons)
    with Nil.prems(3) [of "lo b"] show ?thesis by (simp add: covers_Nil)
  qed
next
  case (Cons a r1')
  show ?case
  proof (cases r2)
    case Nil
    from Cons.prems(1) have "covers (a # r1') (lo a)" by (simp add: canonical_Cons covers_Cons)
    with Cons.prems(3) [of "lo a"] Nil show ?thesis by (simp add: covers_Nil)
  next
    case r2: (Cons b r2')
    have ab: "a = b"
      using Cons.prems unfolding r2 by (rule canonical_head_eq)
    have tail: "covers r1' c = covers r2' c" for c
    proof
      assume h: "covers r1' c"
      then have "covers (b # r2') c" using Cons.prems(3) [of c] by (simp add: r2 covers_Cons)
      moreover have "\<not> (lo b \<le> c \<and> c < hi b)"
        using canonical_tail_disjoint [OF Cons.prems(1) h] ab by simp
      ultimately show "covers r2' c" by (simp add: covers_Cons)
    next
      assume h: "covers r2' c"
      then have "covers (a # r1') c" using Cons.prems(3) [of c] by (simp add: r2 covers_Cons)
      moreover have "\<not> (lo a \<le> c \<and> c < hi a)"
        using canonical_tail_disjoint [OF Cons.prems(2) [unfolded r2] h] ab by simp
      ultimately show "covers r1' c" by (simp add: covers_Cons)
    qed
    have "r1' = r2'"
      using Cons.prems(1,2) tail by (intro Cons.IH) (simp_all add: r2 canonical_Cons)
    with ab r2 show ?thesis by simp
  qed
qed

lemma lower_ok_cut: "lower_ok l v \<longleftrightarrow> lower_cut l \<le> Cut v False"
proof (cases l)
  case LowerUnbounded
  then show ?thesis by (simp add: less_eq_cut_def)
next
  case (LowerAt w inclusive)
  then show ?thesis
    by (cases "compare w v") (simp_all add: less_eq_cut_def)
qed

lemma upper_ok_cut: "upper_ok u v \<longleftrightarrow> Cut v False < upper_cut u"
proof (cases u)
  case UpperUnbounded
  then show ?thesis by (simp add: less_cut_def)
next
  case (UpperAt w inclusive)
  then show ?thesis
    by (cases "compare v w") (simp_all add: less_cut_def)
qed

lemma contains_covers: "contains r v \<longleftrightarrow> covers r (Cut v False)"
  by (simp add: contains_def covers_def bound_contains_def lower_ok_cut upper_ok_cut lo_def hi_def)

lemma covers_append: "covers (xs @ ys) c \<longleftrightarrow> covers xs c \<or> covers ys c"
  by (auto simp: covers_def)

lemma covers_filter_nonempty: "covers (filter bound_nonempty bs) c = covers bs c"
  by (auto simp: covers_def bound_nonempty_def)

lemma covers_sort_key: "covers (sort_key f bs) c = covers bs c"
  by (simp add: covers_def)

lemma covers_merge_bounds:
  "sorted (map lo xs) \<Longrightarrow> covers (merge_bounds xs) c = covers xs c"
proof (induction xs rule: merge_bounds.induct)
  case (1 b1 b2 rest)
  show ?case
  proof (cases "hi b1 < lo b2")
    case True
    with 1 show ?thesis by (simp add: covers_Cons)
  next
    case False
    let ?m = "b1\<lparr>bound_upper := (if hi b1 \<le> hi b2 then bound_upper b2 else bound_upper b1)\<rparr>"
    from "1.prems" have s: "sorted (map lo (?m # rest))" by (simp add: lo_upd)
    from "1.prems" have l12: "lo b1 \<le> lo b2" by simp
    from False have l2h1: "lo b2 \<le> hi b1" by simp
    have m: "(lo ?m \<le> c \<and> c < hi ?m) \<longleftrightarrow> (lo b1 \<le> c \<and> c < hi b1) \<or> (lo b2 \<le> c \<and> c < hi b2)"
      unfolding hi_merged lo_upd using l12 l2h1 by (auto simp: less_max_iff_disj)
    have "covers (merge_bounds (b1 # b2 # rest)) c = covers (merge_bounds (?m # rest)) c"
      using False by simp
    also have "\<dots> = covers (?m # rest) c"
      using 1 False s by simp
    also have "\<dots> = covers (b1 # b2 # rest) c"
      using m by (simp only: covers_Cons) blast
    finally show ?thesis .
  qed
qed simp_all

lemma covers_from_bounds: "covers (from_bounds bs) c = covers bs c"
proof -
  have "sorted (map lo (sort_key bound_key (filter bound_nonempty bs)))"
    by (rule sorted_key_lo) (rule sorted_sort_key)
  then show ?thesis
    by (simp add: from_bounds_def covers_merge_bounds covers_sort_key covers_filter_nonempty)
qed

lemma covers_product:
  "covers (concat (map (\<lambda>b1. map (bound_intersect b1) r2) r1)) c \<longleftrightarrow> covers r1 c \<and> covers r2 c"
  by (auto simp: covers_def lo_intersect hi_intersect)

lemma covers_intersect: "covers (intersect r1 r2) c \<longleftrightarrow> covers r1 c \<and> covers r2 c"
  by (simp add: intersect_def covers_from_bounds covers_product)

lemma covers_union: "covers (union_range r1 r2) c \<longleftrightarrow> covers r1 c \<or> covers r2 c"
  by (simp add: union_range_def covers_from_bounds covers_append)

lemma contains_intersect: "contains (intersect r1 r2) v \<longleftrightarrow> contains r1 v \<and> contains r2 v"
  by (simp add: contains_covers covers_intersect)

lemma contains_union: "contains (union_range r1 r2) v \<longleftrightarrow> contains r1 v \<or> contains r2 v"
  by (simp add: contains_covers covers_union)

lemma from_bounds_unique:
  "(\<And>c. covers bs c = covers bs' c) \<Longrightarrow> from_bounds bs = from_bounds bs'"
  by (rule canonical_unique) (simp_all add: canonical_from_bounds covers_from_bounds)

lemma compare_token_zero: "compare_token (Numeric 0) t \<noteq> Greater"
  by (cases t) (simp_all add: compare_nat_def)

lemma compare_Nil_not_Greater: "compare [] v \<noteq> Greater"
  by (cases v) (simp_all add: compare_def)

lemma compare_successor:
  "compare w v = Less \<longleftrightarrow> compare (w @ [Numeric 0]) v \<noteq> Greater"
proof (induction w arbitrary: v)
  case Nil
  show ?case
  proof (cases v)
    case Nil
    then show ?thesis by (simp add: compare_def)
  next
    case (Cons t ts)
    then show ?thesis
      using compare_token_zero [of t] compare_Nil_not_Greater [of ts]
      by (cases "compare_token (Numeric 0) t") (simp_all add: compare_def)
  qed
next
  case (Cons a w)
  show ?case
  proof (cases v)
    case Nil
    then show ?thesis by (simp add: compare_def)
  next
    case (Cons t ts)
    then show ?thesis
      using Cons.IH [of ts]
      by (cases "compare_token a t") (simp_all add: compare_def)
  qed
qed

subsection \<open>The claims on the version and range algebra\<close>


text \<open>
  Claim C3. For all versions \<open>v1\<close> and \<open>v2\<close>, \<^verbatim>\<open>compare\<close> is a strict total order:
  the result for \<open>(v2, v1)\<close> is the inverse of the result for \<open>(v1, v2)\<close>, the result
  is equal exactly for equal versions, exactly one of less, equal and greater holds,
  and less is transitive.
\<close>

theorem compare_strict_total_order:
  "compare v2 v1 = invert (compare v1 v2) \<and>
   (compare v1 v2 = Equal \<longleftrightarrow> v1 = v2) \<and>
   (compare v1 v2 = Less \<or> v1 = v2 \<or> compare v2 v1 = Less) \<and>
   \<not> (compare v1 v2 = Less \<and> v1 = v2) \<and>
   \<not> (compare v1 v2 = Less \<and> compare v2 v1 = Less) \<and>
   \<not> (v1 = v2 \<and> compare v2 v1 = Less) \<and>
   (compare v1 v2 = Less \<and> compare v2 v3 = Less \<longrightarrow> compare v1 v3 = Less)"
proof -
  have inv: "compare v2 v1 = invert (compare v1 v2)" by (rule compare_invert)
  have eq: "compare v1 v2 = Equal \<longleftrightarrow> v1 = v2" by (rule compare_eq)
  have tr: "compare v1 v2 = Less \<and> compare v2 v3 = Less \<longrightarrow> compare v1 v3 = Less"
    by (blast intro: compare_trans)
  from inv eq have tri:
    "(compare v1 v2 = Less \<or> v1 = v2 \<or> compare v2 v1 = Less) \<and>
     \<not> (compare v1 v2 = Less \<and> v1 = v2) \<and>
     \<not> (compare v1 v2 = Less \<and> compare v2 v1 = Less) \<and>
     \<not> (v1 = v2 \<and> compare v2 v1 = Less)"
    by (cases "compare v1 v2") auto
  from inv eq tri tr show ?thesis by blast
qed

text \<open>
  Claim C3, at the versions 1, 1.0 and 1.a: 1 is less than 1.0 and 1.0 less than 1.a,
  so 1 is less than 1.a, and 1.0 is greater than 1.
\<close>

theorem compare_strict_total_order_witness:
  "compare [Numeric 1] [Numeric 1, Numeric 0] = Less \<and>
   compare [Numeric 1, Numeric 0] [Numeric 1, Alphabetic ''a''] = Less \<and>
   compare [Numeric 1] [Numeric 1, Alphabetic ''a''] = Less \<and>
   compare [Numeric 1, Numeric 0] [Numeric 1] = Greater"
proof -
  have a: "compare [Numeric 1] [Numeric 1, Numeric 0] = Less"
    by (simp add: compare_def compare_nat_def)
  have b: "compare [Numeric 1, Numeric 0] [Numeric 1, Alphabetic ''a''] = Less"
    by (simp add: compare_def compare_nat_def)
  from a b
    compare_strict_total_order [of "[Numeric 1, Numeric 0]" "[Numeric 1]" "[Numeric 1, Alphabetic ''a'']"]
  show ?thesis by simp
qed

text \<open>
  Claim C2. For every range \<open>r\<close> (a list of bounds that satisfies the invariant of a
  VersionRange), \<^verbatim>\<open>intersect(r, r) = r\<close>; for all \<open>r1\<close> and \<open>r2\<close>,
  \<^verbatim>\<open>intersect(r1, r2) = intersect(r2, r1)\<close>; and intersecting a range with the
  unbounded ``any'' range, on either side, yields the range.
\<close>

theorem intersect_algebra:
  "(canonical r \<longrightarrow> intersect r r = r) \<and>
   intersect r1 r2 = intersect r2 r1 \<and>
   (canonical r \<longrightarrow> intersect r any_range = r \<and> intersect any_range r = r)"
proof -
  have "canonical r \<Longrightarrow> intersect any_range r = r"
    using intersect_commute [of any_range r] by (simp add: intersect_any)
  then show ?thesis
    using intersect_commute [of r1 r2] by (auto simp: intersect_idem intersect_any)
qed

text \<open>
  Claim C2, at the range of the versions from 1 (included) to 2 (excluded) or above 3.
\<close>

theorem intersect_algebra_witness:
  "canonical [\<lparr>bound_lower = LowerAt [Numeric 1] True, bound_upper = UpperAt [Numeric 2] False\<rparr>,
              \<lparr>bound_lower = LowerAt [Numeric 3] False, bound_upper = UpperUnbounded\<rparr>] \<and>
   intersect [\<lparr>bound_lower = LowerAt [Numeric 1] True, bound_upper = UpperAt [Numeric 2] False\<rparr>,
              \<lparr>bound_lower = LowerAt [Numeric 3] False, bound_upper = UpperUnbounded\<rparr>]
             [\<lparr>bound_lower = LowerAt [Numeric 1] True, bound_upper = UpperAt [Numeric 2] False\<rparr>,
              \<lparr>bound_lower = LowerAt [Numeric 3] False, bound_upper = UpperUnbounded\<rparr>] =
     [\<lparr>bound_lower = LowerAt [Numeric 1] True, bound_upper = UpperAt [Numeric 2] False\<rparr>,
      \<lparr>bound_lower = LowerAt [Numeric 3] False, bound_upper = UpperUnbounded\<rparr>] \<and>
   intersect [\<lparr>bound_lower = LowerAt [Numeric 1] True, bound_upper = UpperAt [Numeric 2] False\<rparr>,
              \<lparr>bound_lower = LowerAt [Numeric 3] False, bound_upper = UpperUnbounded\<rparr>] any_range =
     [\<lparr>bound_lower = LowerAt [Numeric 1] True, bound_upper = UpperAt [Numeric 2] False\<rparr>,
      \<lparr>bound_lower = LowerAt [Numeric 3] False, bound_upper = UpperUnbounded\<rparr>]"
proof -
  let ?r = "[\<lparr>bound_lower = LowerAt [Numeric 1] True, bound_upper = UpperAt [Numeric 2] False\<rparr>,
             \<lparr>bound_lower = LowerAt [Numeric 3] False, bound_upper = UpperUnbounded\<rparr>]"
  have c: "canonical ?r"
    by code_simp
  from c intersect_algebra [of ?r] show ?thesis by simp
qed

subsection \<open>Produced ranges: ends in one form, same versions, same structure\<close>

lemma lower_normal_normalize: "lower_normal (normalize_lower l)"
  by (cases l) simp_all

lemma upper_normal_normalize: "u \<noteq> UpperAt [] False \<Longrightarrow> upper_normal (normalize_upper u)"
  by (cases u) auto

lemma ends_normal_Cons:
  "ends_normal (b # r) \<longleftrightarrow> lower_normal (bound_lower b) \<and> upper_normal (bound_upper b) \<and> ends_normal r"
  by (simp add: ends_normal_def)

lemma ends_normal_append: "ends_normal (xs @ ys) \<longleftrightarrow> ends_normal xs \<and> ends_normal ys"
  by (auto simp: ends_normal_def)

lemma ends_normal_merge_bounds: "ends_normal xs \<Longrightarrow> ends_normal (merge_bounds xs)"
proof (induction xs rule: merge_bounds.induct)
  case (1 b1 b2 rest)
  show ?case
  proof (cases "hi b1 < lo b2")
    case True
    with 1 show ?thesis by (simp add: ends_normal_Cons)
  next
    case False
    let ?m = "b1\<lparr>bound_upper := (if hi b1 \<le> hi b2 then bound_upper b2 else bound_upper b1)\<rparr>"
    from "1.prems" have "ends_normal (?m # rest)" by (simp add: ends_normal_Cons)
    with 1 False show ?thesis by simp
  qed
qed simp_all

lemma ends_normal_from_bounds: "ends_normal xs \<Longrightarrow> ends_normal (from_bounds xs)"
proof -
  assume "ends_normal xs"
  then have "ends_normal (sort_key bound_key (filter bound_nonempty xs))"
    by (simp add: ends_normal_def)
  then show ?thesis
    unfolding from_bounds_def by (rule ends_normal_merge_bounds)
qed

lemma ends_normal_parse_range: "ends_normal (parse_range bs)"
  unfolding parse_range_def
  by (rule ends_normal_from_bounds)
    (simp add: ends_normal_def normalize_ends_def lower_normal_normalize upper_normal_normalize)

lemma ends_normal_product:
  "ends_normal r1 \<Longrightarrow> ends_normal r2 \<Longrightarrow>
   ends_normal (concat (map (\<lambda>b1. map (bound_intersect b1) r2) r1))"
  by (auto simp: ends_normal_def bound_intersect_def)

lemma ends_normal_intersect: "ends_normal r1 \<Longrightarrow> ends_normal r2 \<Longrightarrow> ends_normal (intersect r1 r2)"
  unfolding intersect_def by (intro ends_normal_from_bounds ends_normal_product)

lemma ends_normal_union: "ends_normal r1 \<Longrightarrow> ends_normal r2 \<Longrightarrow> ends_normal (union_range r1 r2)"
  unfolding union_range_def by (intro ends_normal_from_bounds) (simp add: ends_normal_append)

lemma produced_invariant: "produced r \<Longrightarrow> canonical r \<and> ends_normal r"
proof (induction rule: produced.induct)
  case (by_parsing bs)
  show ?case by (simp add: parse_range_def canonical_from_bounds ends_normal_parse_range [unfolded parse_range_def])
next
  case (by_intersection r1 r2)
  then show ?case by (simp add: ends_normal_intersect) (simp add: intersect_def canonical_from_bounds)
next
  case (by_union r1 r2)
  then show ?case by (simp add: ends_normal_union) (simp add: union_range_def canonical_from_bounds)
qed


lemma compare_successor_right:
  "compare v (w @ [Numeric 0]) = Less \<longleftrightarrow> compare v w \<noteq> Greater"
proof -
  have a: "compare v (w @ [Numeric 0]) = invert (compare (w @ [Numeric 0]) v)"
    by (rule compare_invert)
  have b: "compare v w = invert (compare w v)"
    by (rule compare_invert)
  have c: "compare w v = Less \<longleftrightarrow> compare (w @ [Numeric 0]) v \<noteq> Greater"
    by (rule compare_successor)
  show ?thesis
    using a b c by (cases "compare w v"; cases "compare (w @ [Numeric 0]) v") simp_all
qed

lemma lower_ok_normalize: "lower_ok (normalize_lower l) v = lower_ok l v"
proof (cases l)
  case LowerUnbounded
  then show ?thesis by simp
next
  case (LowerAt w inclusive)
  then show ?thesis
    using compare_successor [of w v] compare_Nil_not_Greater [of v] by auto
qed

lemma upper_ok_normalize: "upper_ok (normalize_upper u) v = upper_ok u v"
proof (cases u)
  case UpperUnbounded
  then show ?thesis by simp
next
  case (UpperAt w inclusive)
  then show ?thesis
    using compare_successor_right [of v w] by auto
qed

lemma bound_contains_normalize: "bound_contains (normalize_ends b) v = bound_contains b v"
  by (simp add: bound_contains_def normalize_ends_def lower_ok_normalize upper_ok_normalize)

lemma compare_right_Nil: "compare v [] \<noteq> Less"
  by (cases v) (simp_all add: compare_def)

lemma below_empty_version: "bound_upper b = UpperAt [] False \<Longrightarrow> \<not> bound_contains b v"
  by (simp add: bound_contains_def compare_right_Nil)

lemma contains_from_bounds: "contains (from_bounds bs) v = contains bs v"
  by (simp add: contains_covers covers_from_bounds)

lemma contains_parse_range: "contains (parse_range bs) v = contains bs v"
proof -
  have "contains (parse_range bs) v =
        contains (map normalize_ends (filter (\<lambda>b. bound_upper b \<noteq> UpperAt [] False) bs)) v"
    by (simp add: parse_range_def contains_from_bounds)
  also have "\<dots> = contains bs v"
    using below_empty_version by (auto simp: contains_def bound_contains_normalize)
  finally show ?thesis .
qed

lemma lower_normal_after:
  "lower_normal l \<Longrightarrow> lower_cut l \<le> Cut v True \<longleftrightarrow> lower_cut l \<le> Cut v False"
proof (cases l)
  case LowerUnbounded
  then show ?thesis by (simp add: less_eq_cut_def)
next
  case (LowerAt w inclusive)
  assume "lower_normal l"
  with LowerAt show ?thesis
    by (cases "compare w v") (simp_all add: less_eq_cut_def)
qed

lemma upper_normal_after:
  "upper_normal u \<Longrightarrow> Cut v True < upper_cut u \<longleftrightarrow> Cut v False < upper_cut u"
proof (cases u)
  case UpperUnbounded
  then show ?thesis by (simp add: less_cut_def)
next
  case (UpperAt w inclusive)
  assume "upper_normal u"
  with UpperAt show ?thesis
    by (cases "compare v w") (simp_all add: less_cut_def)
qed

lemma lower_normal_least:
  "lower_normal l \<Longrightarrow> lower_cut l \<le> NegInf \<longleftrightarrow> lower_cut l \<le> Cut [] False"
proof (cases l)
  case LowerUnbounded
  then show ?thesis by (simp add: less_eq_cut_def)
next
  case (LowerAt w inclusive)
  assume "lower_normal l"
  with LowerAt have "w \<noteq> []" "inclusive" by simp_all
  then have "compare w [] = Greater" by (cases w) (simp_all add: compare_def)
  with LowerAt \<open>inclusive\<close> show ?thesis by (simp add: less_eq_cut_def)
qed

lemma upper_normal_least:
  "upper_normal u \<Longrightarrow> NegInf < upper_cut u \<longleftrightarrow> Cut [] False < upper_cut u"
proof (cases u)
  case UpperUnbounded
  then show ?thesis by (simp add: less_cut_def)
next
  case (UpperAt w inclusive)
  assume "upper_normal u"
  with UpperAt have "w \<noteq> []" "\<not> inclusive" by simp_all
  then have "compare [] w = Less" by (cases w) (simp_all add: compare_def)
  with UpperAt \<open>\<not> inclusive\<close> show ?thesis by (simp add: less_cut_def)
qed

lemma not_less_PosInf: "\<not> PosInf < c"
  by (cases c) (simp_all add: less_cut_def)

lemma covers_by_contains:
  assumes "ends_normal r"
  shows "covers r c \<longleftrightarrow> (case c of NegInf \<Rightarrow> contains r [] | Cut v a \<Rightarrow> contains r v | PosInf \<Rightarrow> False)"
proof (cases c)
  case NegInf
  then show ?thesis
    using assms
    by (auto simp: contains_covers covers_def ends_normal_def lo_def hi_def
        lower_normal_least upper_normal_least)
next
  case (Cut v a)
  show ?thesis
  proof (cases a)
    case True
    with Cut show ?thesis
      using assms
      by (auto simp: contains_covers covers_def ends_normal_def lo_def hi_def
          lower_normal_after upper_normal_after)
  next
    case False
    with Cut show ?thesis by (simp add: contains_covers)
  qed
next
  case PosInf
  then show ?thesis by (simp add: covers_def not_less_PosInf)
qed

lemma normal_range_unique:
  assumes "canonical r" "ends_normal r" "canonical r'" "ends_normal r'"
    and same: "\<And>v. contains r v = contains r' v"
  shows "r = r'"
proof (rule canonical_unique)
  fix c
  show "covers r c = covers r' c"
    by (simp add: covers_by_contains assms(2) covers_by_contains [OF assms(4)] same split: cut.splits)
qed (rule assms)+

lemma produced_unique:
  "produced r \<Longrightarrow> produced r' \<Longrightarrow> (\<And>v. contains r v = contains r' v) \<Longrightarrow> r = r'"
  by (rule normal_range_unique) (simp_all add: produced_invariant)

text \<open>
  Claim C4. Every VersionRange produced by a range operation (parsing, intersection,
  union) satisfies the invariant: its bounds are sorted and non-overlapping and no two
  touching bounds are left unmerged. So semantically identical ranges expressed
  differently are structurally equal and hash-equal: two produced ranges that contain
  the same versions are equal, and two lists of written bounds that contain the same
  versions parse to the same range. The operations keep the meaning: a parsed range
  contains the versions of its written bounds, an intersection the versions of both
  ranges, a union the versions of either.
\<close>

theorem range_canonical_form:
  "(produced r \<longrightarrow> canonical r) \<and>
   (produced r \<and> produced r' \<and> (\<forall>v. contains r v = contains r' v) \<longrightarrow>
      r = r' \<and> hash r = hash r') \<and>
   ((\<forall>v. contains bs v = contains bs' v) \<longrightarrow>
      parse_range bs = parse_range bs' \<and> hash (parse_range bs) = hash (parse_range bs')) \<and>
   (\<forall>v. contains (parse_range bs) v = contains bs v) \<and>
   (\<forall>v. contains (intersect r1 r2) v = (contains r1 v \<and> contains r2 v)) \<and>
   (\<forall>v. contains (union_range r1 r2) v = (contains r1 v \<or> contains r2 v))"
proof -
  have inv: "produced r \<longrightarrow> canonical r"
    by (simp add: produced_invariant)
  have uniq: "produced r \<and> produced r' \<and> (\<forall>v. contains r v = contains r' v) \<longrightarrow> r = r'"
    using produced_unique [of r r'] by blast
  have "(\<forall>v. contains bs v = contains bs' v) \<longrightarrow> parse_range bs = parse_range bs'"
  proof
    assume "\<forall>v. contains bs v = contains bs' v"
    then have "contains (parse_range bs) v = contains (parse_range bs') v" for v
      by (simp add: contains_parse_range)
    then show "parse_range bs = parse_range bs'"
      by (intro produced_unique produced.by_parsing)
  qed
  with inv uniq show ?thesis
    by (auto simp: contains_parse_range contains_intersect contains_union)
qed

text \<open>
  Claim C4, at the range of the versions greater than 1 intersected with the range of
  all versions, and the range of the versions from 1.0 on: both are produced, they
  contain the same versions, and they are the same range with the one bound from 1.0
  on.
\<close>

theorem range_canonical_form_witness:
  "produced (intersect (parse_range [\<lparr>bound_lower = LowerAt [Numeric 1] False, bound_upper = UpperUnbounded\<rparr>])
                       (parse_range [\<lparr>bound_lower = LowerUnbounded, bound_upper = UpperUnbounded\<rparr>])) \<and>
   produced (parse_range [\<lparr>bound_lower = LowerAt [Numeric 1, Numeric 0] True, bound_upper = UpperUnbounded\<rparr>]) \<and>
   (\<forall>v. contains [\<lparr>bound_lower = LowerAt [Numeric 1] False, bound_upper = UpperUnbounded\<rparr>] v =
        contains [\<lparr>bound_lower = LowerAt [Numeric 1, Numeric 0] True, bound_upper = UpperUnbounded\<rparr>] v) \<and>
   canonical (intersect (parse_range [\<lparr>bound_lower = LowerAt [Numeric 1] False, bound_upper = UpperUnbounded\<rparr>])
                        (parse_range [\<lparr>bound_lower = LowerUnbounded, bound_upper = UpperUnbounded\<rparr>])) \<and>
   intersect (parse_range [\<lparr>bound_lower = LowerAt [Numeric 1] False, bound_upper = UpperUnbounded\<rparr>])
             (parse_range [\<lparr>bound_lower = LowerUnbounded, bound_upper = UpperUnbounded\<rparr>]) =
     [\<lparr>bound_lower = LowerAt [Numeric 1, Numeric 0] True, bound_upper = UpperUnbounded\<rparr>] \<and>
   parse_range [\<lparr>bound_lower = LowerAt [Numeric 1] False, bound_upper = UpperUnbounded\<rparr>] =
     [\<lparr>bound_lower = LowerAt [Numeric 1, Numeric 0] True, bound_upper = UpperUnbounded\<rparr>]"
proof -
  let ?gt = "[\<lparr>bound_lower = LowerAt [Numeric 1] False, bound_upper = UpperUnbounded\<rparr>]"
  let ?ge = "[\<lparr>bound_lower = LowerAt [Numeric 1, Numeric 0] True, bound_upper = UpperUnbounded\<rparr>]"
  let ?any = "[\<lparr>bound_lower = LowerUnbounded, bound_upper = UpperUnbounded\<rparr>]"
  let ?i = "intersect (parse_range ?gt) (parse_range ?any)"
  have p1: "produced ?i"
    by (intro produced.by_intersection produced.by_parsing)
  have p2: "produced (parse_range ?ge)"
    by (rule produced.by_parsing)
  have same: "contains ?gt v = contains ?ge v" for v
    using compare_successor [of "[Numeric 1]" v]
    by (simp add: contains_def bound_contains_def)
  have all: "contains ?any v" for v
    by (simp add: contains_def bound_contains_def)
  have sem_parse: "contains (parse_range xs) v = contains xs v" for xs v
    using range_canonical_form
      [where bs = xs and bs' = "[]" and r = "[]" and r' = "[]" and ?r1.0 = "[]" and ?r2.0 = "[]"
        and hash = "\<lambda>r. r"]
    by blast
  have sem_int: "contains (intersect a b) v = (contains a v \<and> contains b v)" for a b v
    using range_canonical_form
      [where bs = "[]" and bs' = "[]" and r = "[]" and r' = "[]" and ?r1.0 = a and ?r2.0 = b
        and hash = "\<lambda>r. r"]
    by blast
  have ci: "contains ?i v = contains (parse_range ?ge) v" for v
    using same [of v] all [of v] by (simp only: sem_int sem_parse) simp
  have ge: "parse_range ?ge = ?ge"
    by code_simp
  have c: "canonical ?i"
    using p1 range_canonical_form
      [where r = ?i and r' = "[]" and bs = "[]" and bs' = "[]" and ?r1.0 = "[]" and ?r2.0 = "[]"
        and hash = "\<lambda>r. r"]
    by blast
  have e1: "?i = parse_range ?ge"
    using p1 p2 ci range_canonical_form
      [where r = ?i and r' = "parse_range ?ge" and bs = "[]" and bs' = "[]" and ?r1.0 = "[]"
        and ?r2.0 = "[]" and hash = "\<lambda>r. r"]
    by blast
  have e2: "parse_range ?gt = parse_range ?ge"
    using same range_canonical_form
      [where r = "[]" and r' = "[]" and bs = ?gt and bs' = ?ge and ?r1.0 = "[]" and ?r2.0 = "[]"
        and hash = "\<lambda>r. r"]
    by blast
  from p1 p2 same c e1 e2 ge show ?thesis by simp
qed

end
